theory Spec2Isabelle
  imports Complex_Main
begin

section \<open>The partitioner of \<open>parallel_all_of\<close> (src/main.cpp, lines 108-115)\<close>

text \<open>
  \<open>parallel_all_of\<close> splits the index range of \<open>data\<close> inside its spawning loop:

  \<^verbatim>\<open>size_t block_size = n / K;\<close>
  \<^verbatim>\<open>for (int i = 0; i < K; ++i) {\<close>
  \<^verbatim>\<open>    size_t start = i * block_size;\<close>
  \<^verbatim>\<open>    size_t end = (i == K - 1) ? n : (i + 1) * block_size;\<close>

  \<open>n\<close> is a \<open>size_t\<close> (modelled as \<open>nat\<close>), \<open>K\<close> an \<open>int\<close> that is positive when
  these lines run, \<open>i\<close> the loop index, which runs over \<open>0 .. K - 1\<close>. The products are
  taken in \<open>size_t\<close>; lemma \<open>part_end_le\<close> below shows that none of them exceeds \<open>n\<close>,
  so the unsigned arithmetic never wraps and \<open>nat\<close> is exact.
\<close>

definition block_size :: "nat \<Rightarrow> int \<Rightarrow> nat" where
  "block_size n K = n div nat K"

definition part_start :: "nat \<Rightarrow> int \<Rightarrow> nat \<Rightarrow> nat" where
  "part_start n K i = i * block_size n K"

definition part_end :: "nat \<Rightarrow> int \<Rightarrow> nat \<Rightarrow> nat" where
  "part_end n K i = (if int i = K - 1 then n else (i + 1) * block_size n K)"

text \<open>The ranges in the order in which the loop produces them.\<close>

definition partitions :: "nat \<Rightarrow> int \<Rightarrow> (nat \<times> nat) list" where
  "partitions n K = map (\<lambda>i. (part_start n K i, part_end n K i)) [0..<nat K]"

section \<open>The predicate and \<open>std::all_of\<close>\<close>

text \<open>
  Every scan in the program uses the same lambda,
  \<^verbatim>\<open>[&](int x) { return std::sqrt(x * x + 10) < threshold; }\<close>.
  \<open>x * x + 10\<close> is computed in 32-bit \<open>int\<close>; the model writes out the two's-complement
  wrap-around of the target machine (\<open>int32_wrap\<close>) where the product or the sum leaves
  the range (C++ leaves that overflow undefined; it needs \<open>|x| > 46340\<close>, and no claim
  below rests on what it yields). \<open>std::sqrt\<close> of a negative argument is a NaN, and every comparison with a
  NaN is false: that is the conjunct \<open>0 \<le> v\<close>. For \<open>0 \<le> v < 2^31\<close> and an integer
  threshold the correctly rounded \<open>double\<close> square root lies below the threshold exactly
  when the real square root does, so the comparison is taken over the reals.
\<close>

definition int32_wrap :: "int \<Rightarrow> int" where
  "int32_wrap v = (v + 2147483648) mod 4294967296 - 2147483648"

definition predicate :: "int \<Rightarrow> int \<Rightarrow> bool" where
  "predicate threshold x =
     (let v = int32_wrap (int32_wrap (x * x) + 10)
      in 0 \<le> v \<and> sqrt (real_of_int v) < real_of_int threshold)"

text \<open>
  \<open>std::all_of(first, last, p)\<close> of the C++ standard library (the file is built with
  g++, whose library returns \<open>last == std::find_if_not(first, last, p)\<close>): it calls \<open>p\<close>
  on the elements in order and stops after the first one that \<open>p\<close> rejects. The model
  returns the boolean together with the elements \<open>p\<close> was called on, in call order.
\<close>

fun all_of :: "('a \<Rightarrow> bool) \<Rightarrow> 'a list \<Rightarrow> bool \<times> 'a list" where
  "all_of p [] = (True, [])"
| "all_of p (x # xs) =
     (if p x then (case all_of p xs of (b, seen) \<Rightarrow> (b, x # seen)) else (False, [x]))"

text \<open>The iterator range \<open>[data.begin() + start, data.begin() + end)\<close>.\<close>

definition range_of :: "'a list \<Rightarrow> nat \<Rightarrow> nat \<Rightarrow> 'a list" where
  "range_of data start stop = take (stop - start) (drop start data)"

section \<open>The workers and the shared \<open>vector<bool>\<close> (lines 109-124)\<close>

text \<open>
  \<open>results\<close> is a \<open>vector<bool>\<close> of \<open>K\<close> bits, all true at first, and worker \<open>i\<close> runs
  \<^verbatim>\<open>results[i] = all_of(data.begin() + start, data.begin() + end, ...)\<close>
  in a thread of its own. \<open>vector<bool>\<close> packs its elements, 64 to a machine word, and
  assigning through \<open>results[i]\<close> is a read-modify-write of the whole word
  (\<open>*p |= mask\<close> or \<open>*p &= ~mask\<close>) with no synchronisation; the C++ standard exempts
  \<open>vector<bool>\<close> from the rule that distinct elements of a container may be modified
  concurrently. A worker therefore takes two steps on the shared vector: it scans its
  range and loads the word of its bit, then stores the word with its bit replaced. The
  scan reads only \<open>data\<close>, which no thread writes, so its result does not depend on the
  interleaving; what is stored does.

  A schedule is the order in which the operating system lets the workers take their
  steps: a list of worker indices, each occurrence one step of that worker. Creating
  the threads and allocating the vectors are taken to succeed.
\<close>

definition word_bits :: nat where
  "word_bits = 64"

datatype worker = Ready | Loaded "bool list" | Done

record shared =
  results :: "bool list"
  threads :: "worker list"

text \<open>
  The store of worker \<open>i\<close>: bit \<open>i\<close> becomes \<open>b\<close>, the other bits of the same word
  become what the worker loaded (\<open>snap\<close>), the other words are untouched.
\<close>

definition write_back :: "nat \<Rightarrow> bool \<Rightarrow> bool list \<Rightarrow> bool list \<Rightarrow> bool list" where
  "write_back i b snap bits =
     map (\<lambda>j. if j = i then b
              else if j div word_bits = i div word_bits then snap ! j
              else bits ! j) [0..<length bits]"

definition step :: "bool list \<Rightarrow> nat \<Rightarrow> shared \<Rightarrow> shared" where
  "step rs i s =
     (if i < length (threads s) then
        (case threads s ! i of
           Ready \<Rightarrow> s\<lparr>threads := (threads s)[i := Loaded (results s)]\<rparr>
         | Loaded snap \<Rightarrow>
             s\<lparr>results := write_back i (rs ! i) snap (results s),
               threads := (threads s)[i := Done]\<rparr>
         | Done \<Rightarrow> s)
      else s)"

text \<open>
  \<^verbatim>\<open>for (auto &t : threads) t.join();\<close> returns from \<open>join\<close> number \<open>i\<close> once worker \<open>i\<close>
  has finished, so whatever the schedule left undone is done by then.
\<close>

definition join_all :: "bool list \<Rightarrow> shared \<Rightarrow> shared" where
  "join_all rs s = fold (\<lambda>i s. step rs i (step rs i s)) [0..<length (threads s)] s"

section \<open>\<open>parallel_all_of\<close> (lines 102-128)\<close>

text \<open>
  What one call does: the value it returns, the number of threads it created, and for
  each worker the elements its scan called the predicate on.
\<close>

record run =
  returned :: bool
  spawned :: nat
  evaluated :: "int list list"

text \<open>
  The scan of worker \<open>i\<close>, the body of the lambda handed to its thread (line 119),
  for every \<open>i\<close> of the spawning loop.
\<close>

definition scans :: "int list \<Rightarrow> int \<Rightarrow> int \<Rightarrow> (bool \<times> int list) list" where
  "scans data threshold K =
     (let n = length data
      in map (\<lambda>i. all_of (predicate threshold)
                     (range_of data (part_start n K i) (part_end n K i)))
             [0..<nat K])"

definition parallel_all_of :: "nat list \<Rightarrow> int list \<Rightarrow> int \<Rightarrow> int \<Rightarrow> run" where
  "parallel_all_of sched data threshold K =
     (let n = length data in
      if K \<le> 0 \<or> n = 0 then \<lparr>returned = True, spawned = 0, evaluated = []\<rparr>
      else
        let rs = map fst (scans data threshold K);
            s0 = \<lparr>results = replicate (nat K) True, threads = replicate (nat K) Ready\<rparr>;
            s1 = fold (step rs) sched s0;
            s2 = join_all rs s1
        in \<lparr>returned = fst (all_of (\<lambda>x. x) (results s2)),
            spawned = nat K,
            evaluated = map snd (scans data threshold K)\<rparr>)"

text \<open>The sequential check the experiments 1 and 2 time (line 55).\<close>

definition sequential_all_of :: "int list \<Rightarrow> int \<Rightarrow> bool" where
  "sequential_all_of data threshold = fst (all_of (predicate threshold) data)"

section \<open>\<open>timeit\<close> (lines 13-24)\<close>

text \<open>
  The world \<open>timeit\<close> runs in: the reading of \<open>high_resolution_clock\<close> in its ticks
  (nanoseconds), the numbers written to \<open>cout\<close>, and whatever the timed operation works
  on. The operation \<open>f\<close> is a transformer of the world; time passes inside it.

  \<^verbatim>\<open>while (repeat--) f();\<close> tests \<open>repeat\<close>, decrements it and then calls \<open>f\<close>. Decrementing
  the least \<open>int\<close> is undefined behaviour, the value \<open>None\<close> of the model; a negative
  \<open>repeat\<close> ends there.
\<close>

record 'a world =
  clock :: int
  printed :: "real list"
  user :: 'a

function timeit_loop :: "('w \<Rightarrow> 'w) \<Rightarrow> int \<Rightarrow> 'w \<Rightarrow> 'w option" where
  "timeit_loop f repeat w =
     (if repeat = 0 then Some w
      else if repeat \<le> - 2147483648 then None
      else timeit_loop f (repeat - 1) (f w))"
  by pat_completeness auto
termination
  by (relation "measure (\<lambda>(f, repeat, w). nat (repeat + 2147483648))") auto

definition timeit ::
  "('a world \<Rightarrow> 'a world) \<Rightarrow> int \<Rightarrow> 'a world \<Rightarrow> (real \<times> 'a world) option" where
  "timeit f repeat w =
     (let t_start = clock w in
      case timeit_loop f repeat w of
        None \<Rightarrow> None
      | Some w1 \<Rightarrow>
          let t_end = clock w1;
              ms = real_of_int (t_end - t_start) / 1000000
          in Some (ms, w1\<lparr>printed := printed w1 @ [ms]\<rparr>))"

section \<open>The speedup table of \<open>demo_parallel_custom\<close> (lines 157-163)\<close>

text \<open>
  \<^verbatim>\<open>double speedup = times[0] / times[i];\<close> divides two \<open>double\<close>s. The times are
  finite; the quotient need not be: dividing by \<open>0.0\<close> gives an infinity, or a NaN
  when the dividend is \<open>0.0\<close> too. Rounding of a finite quotient is not modelled.
\<close>

datatype fp = Finite real | PosInf | NegInf | NaN

definition fdiv :: "real \<Rightarrow> real \<Rightarrow> fp" where
  "fdiv a b =
     (if b = 0 then (if a = 0 then NaN else if 0 < a then PosInf else NegInf)
      else Finite (a / b))"

definition speedups :: "(int \<times> real) list \<Rightarrow> fp list" where
  "speedups series =
     map (\<lambda>i. fdiv (snd (series ! 0)) (snd (series ! i))) [0..<length series]"

text \<open>
  The series the table is computed from is measured by the loop of lines 144-150:

  \<^verbatim>\<open>for (int K : K_values) {\<close>
  \<^verbatim>\<open>    double ms = timeit([&]() { bool result = parallel_all_of(data, threshold, K); ... });\<close>
  \<^verbatim>\<open>    times.push_back(ms); }\<close>

  \<open>call K\<close> stands for the timed lambda as a transformer of the world: what the call of
  \<open>parallel_all_of\<close> with \<open>K\<close> workers does to the world is to take time. \<open>timeit\<close> runs it
  once (\<open>repeat\<close> has its default, 1).
\<close>

fun time_series ::
  "(int \<Rightarrow> 'a world \<Rightarrow> 'a world) \<Rightarrow> int list \<Rightarrow> 'a world
     \<Rightarrow> ((int \<times> real) list \<times> 'a world) option" where
  "time_series call [] w = Some ([], w)"
| "time_series call (K # Ks) w =
     (case timeit (call K) 1 w of
        None \<Rightarrow> None
      | Some (ms, w1) \<Rightarrow>
          (case time_series call Ks w1 of
             None \<Rightarrow> None
           | Some (rest, w2) \<Rightarrow> Some ((K, ms) # rest, w2)))"

section \<open>Invariants of the interleaved workers\<close>

text \<open>Every bit, and every loaded copy, is true.\<close>

definition all_set :: "shared \<Rightarrow> bool" where
  "all_set s \<longleftrightarrow>
     (\<forall>j<length (results s). results s ! j) \<and>
     (\<forall>i<length (threads s). \<forall>snap. threads s ! i = Loaded snap \<longrightarrow>
        length snap = length (results s) \<and> (\<forall>j<length snap. snap ! j))"

text \<open>
  No store is pending: every worker has either not started, its bit still true, or has
  finished and left its own result in its bit.
\<close>

definition settled :: "bool list \<Rightarrow> shared \<Rightarrow> bool" where
  "settled rs s \<longleftrightarrow>
     length (results s) = length (threads s) \<and>
     (\<forall>i<length (threads s).
        (threads s ! i = Ready \<and> results s ! i) \<or>
        (threads s ! i = Done \<and> results s ! i = rs ! i))"

text \<open>With a single worker nothing can overlap, whatever the schedule.\<close>

definition alone :: "bool list \<Rightarrow> shared \<Rightarrow> bool" where
  "alone rs s \<longleftrightarrow>
     length (results s) = 1 \<and> length (threads s) = 1 \<and>
     (threads s ! 0 = Done \<longrightarrow> results s ! 0 = rs ! 0)"

section \<open>Facts about the partitioner\<close>

lemma block_mult_le: "1 \<le> K \<Longrightarrow> j \<le> nat K \<Longrightarrow> j * block_size n K \<le> n"
proof -
  assume K: "1 \<le> K" and j: "j \<le> nat K"
  have "j * (n div nat K) \<le> nat K * (n div nat K)"
    using j by (rule mult_le_mono1)
  also have "\<dots> \<le> n" by simp
  finally show ?thesis by (simp add: block_size_def)
qed

lemma part_end_le: "1 \<le> K \<Longrightarrow> i < nat K \<Longrightarrow> part_end n K i \<le> n"
  using block_mult_le [of K "i + 1" n] by (simp add: part_end_def)

lemma part_start_le_end: "1 \<le> K \<Longrightarrow> i < nat K \<Longrightarrow> part_start n K i \<le> part_end n K i"
  using block_mult_le [of K i n] by (simp add: part_end_def part_start_def)

lemma part_end_next: "int (Suc i) < K \<Longrightarrow> part_end n K i = part_start n K (Suc i)"
  by (simp add: part_end_def part_start_def)

lemma part_end_last: "int i = K - 1 \<Longrightarrow> part_end n K i = n"
  by (simp add: part_end_def)

lemma part_union_upto:
  "1 \<le> K \<Longrightarrow> m \<le> nat K - 1 \<Longrightarrow>
     (\<Union>i<m. {part_start n K i ..< part_end n K i}) = {0 ..< part_start n K m}"
proof (induction m)
  case 0
  then show ?case by (simp add: part_start_def)
next
  case (Suc m)
  have e: "part_end n K m = part_start n K (Suc m)"
    using Suc.prems by (intro part_end_next) linarith
  have le: "part_start n K m \<le> part_start n K (Suc m)"
    by (simp add: part_start_def)
  have "(\<Union>i<Suc m. {part_start n K i ..< part_end n K i}) =
        {0 ..< part_start n K m} \<union> {part_start n K m ..< part_start n K (Suc m)}"
    using Suc by (simp add: lessThan_Suc e Un_commute)
  also have "\<dots> = {0 ..< part_start n K (Suc m)}"
    using le by auto
  finally show ?case .
qed

lemma part_cover:
  assumes K: "1 \<le> K"
  shows "(\<Union>i<nat K. {part_start n K i ..< part_end n K i}) = {0..<n}"
proof -
  obtain m where m: "nat K = Suc m" using K by (cases "nat K") auto
  have last: "part_end n K m = n" using m K by (intro part_end_last) linarith
  have le: "part_start n K m \<le> n" using block_mult_le [of K m n] m K by (simp add: part_start_def)
  have "(\<Union>i<nat K. {part_start n K i ..< part_end n K i}) =
        {0 ..< part_start n K m} \<union> {part_start n K m ..< n}"
    using part_union_upto [of K m n] K m by (simp add: lessThan_Suc last Un_commute)
  also have "\<dots> = {0..<n}" using le by auto
  finally show ?thesis .
qed

lemma part_mono:
  "1 \<le> K \<Longrightarrow> i < j \<Longrightarrow> j < nat K \<Longrightarrow> part_end n K i \<le> part_start n K j"
proof -
  assume K: "1 \<le> K" and ij: "i < j" and j: "j < nat K"
  have "int i \<noteq> K - 1" using ij j by linarith
  then have "part_end n K i = Suc i * block_size n K" by (simp add: part_end_def)
  also have "\<dots> \<le> j * block_size n K" using ij by (intro mult_le_mono1) simp
  finally show ?thesis by (simp add: part_start_def)
qed

lemma part_disjoint:
  "1 \<le> K \<Longrightarrow> i < nat K \<Longrightarrow> j < nat K \<Longrightarrow> i \<noteq> j \<Longrightarrow>
     {part_start n K i ..< part_end n K i} \<inter> {part_start n K j ..< part_end n K j} = {}"
proof -
  assume K: "1 \<le> K" and i: "i < nat K" and j: "j < nat K" and ne: "i \<noteq> j"
  consider "i < j" | "j < i" using ne by linarith
  then show ?thesis
  proof cases
    case 1
    from part_mono [OF K 1 j, of n] show ?thesis by auto
  next
    case 2
    from part_mono [OF K 2 i, of n] show ?thesis by auto
  qed
qed

lemma part_empty_leading:
  "int n < K \<Longrightarrow> int i < K - 1 \<Longrightarrow> part_start n K i = 0 \<and> part_end n K i = 0"
  by (simp add: part_start_def part_end_def block_size_def)

lemma part_last_whole:
  "int n < K \<Longrightarrow> int i = K - 1 \<Longrightarrow> part_start n K i = 0 \<and> part_end n K i = n"
  by (simp add: part_start_def part_end_def block_size_def)

section \<open>Facts about \<open>all_of\<close> and the ranges\<close>

lemma all_of_fst: "fst (all_of p xs) = list_all p xs"
  by (induction xs) (auto split: prod.splits)

lemma all_of_snd: "snd (all_of p xs) = takeWhile p xs @ take 1 (dropWhile p xs)"
  by (induction xs) (auto split: prod.splits)

lemma all_of_snd_all: "list_all p xs \<Longrightarrow> snd (all_of p xs) = xs"
  by (induction xs) (auto split: prod.splits)

lemma all_of_snd_prefix: "snd (all_of p xs) = take (length (snd (all_of p xs))) xs"
  by (induction xs) (auto split: prod.splits)

lemma all_of_snd_length: "length (snd (all_of p xs)) \<le> length xs"
  by (induction xs) (auto split: prod.splits)

lemma blocks_concat:
  "concat (map (\<lambda>i. take b (drop (i * b) xs)) [0..<m]) = take (m * b) xs"
proof (induction m)
  case 0
  show ?case by simp
next
  case (Suc m)
  have "take (m * b) xs @ take b (drop (m * b) xs) = take (m * b + b) xs"
    by (simp add: take_add)
  then show ?case using Suc by (simp add: add.commute)
qed

lemma range_of_inner:
  "int (Suc i) < K \<Longrightarrow>
     range_of data (part_start n K i) (part_end n K i) =
       take (block_size n K) (drop (i * block_size n K) data)"
  by (simp add: range_of_def part_start_def part_end_def)

lemma range_of_last:
  "int (Suc i) = K \<Longrightarrow> n = length data \<Longrightarrow>
     range_of data (part_start n K i) (part_end n K i) = drop (i * block_size n K) data"
  by (simp add: range_of_def part_start_def part_end_def)

lemma ranges_concat:
  assumes K: "1 \<le> K"
  shows "concat (map (\<lambda>i. range_of data (part_start (length data) K i)
                                        (part_end (length data) K i)) [0..<nat K]) = data"
proof -
  obtain m where m: "nat K = Suc m" using K by (cases "nat K") auto
  let ?n = "length data"
  let ?r = "\<lambda>i. range_of data (part_start ?n K i) (part_end ?n K i)"
  have inner: "map ?r [0..<m] = map (\<lambda>i. take (block_size ?n K) (drop (i * block_size ?n K) data)) [0..<m]"
  proof (rule map_cong [OF refl])
    fix i assume "i \<in> set [0..<m]"
    then have "int (Suc i) < K" using m by auto
    then show "?r i = take (block_size ?n K) (drop (i * block_size ?n K) data)"
      by (rule range_of_inner)
  qed
  have last: "?r m = drop (m * block_size ?n K) data"
    using m by (intro range_of_last) auto
  have "concat (map ?r [0..<nat K]) = concat (map ?r [0..<m]) @ ?r m"
    by (simp add: m)
  also have "\<dots> = take (m * block_size ?n K) data @ drop (m * block_size ?n K) data"
    by (simp only: inner last blocks_concat)
  also have "\<dots> = data" by simp
  finally show ?thesis .
qed

lemma length_range_of:
  "stop \<le> length data \<Longrightarrow> length (range_of data start stop) = stop - start"
  by (auto simp: range_of_def)

lemma list_all_concat: "list_all p (concat xss) = list_all (list_all p) xss"
  by (induction xss) auto

lemma scans_all:
  assumes K: "1 \<le> K"
  shows "list_all (\<lambda>b. b)
           (map (\<lambda>i. fst (all_of p (range_of data (part_start (length data) K i)
                                                  (part_end (length data) K i)))) [0..<nat K])
         = list_all p data"
proof -
  let ?r = "\<lambda>i. range_of data (part_start (length data) K i) (part_end (length data) K i)"
  have "list_all p data = list_all p (concat (map ?r [0..<nat K]))"
    by (simp only: ranges_concat [OF K])
  also have "\<dots> = list_all (list_all p) (map ?r [0..<nat K])"
    by (rule list_all_concat)
  finally show ?thesis by (simp add: all_of_fst list_all_iff)
qed

section \<open>Facts about the workers\<close>

lemma length_write_back: "length (write_back i b snap bits) = length bits"
  by (simp add: write_back_def)

lemma nth_write_back:
  "j < length bits \<Longrightarrow>
     write_back i b snap bits ! j =
       (if j = i then b else if j div word_bits = i div word_bits then snap ! j else bits ! j)"
  by (simp add: write_back_def)

lemma write_back_same: "write_back i b bits bits = (if i < length bits then bits[i := b] else bits)"
  by (rule nth_equalityI) (auto simp: length_write_back nth_write_back)

lemma length_threads_step: "length (threads (step rs i s)) = length (threads s)"
  by (simp add: step_def split: worker.splits)

lemma length_results_step: "length (results (step rs i s)) = length (results s)"
  by (simp add: step_def length_write_back split: worker.splits)

lemma length_threads_fold: "length (threads (fold (step rs) sched s)) = length (threads s)"
  by (induction sched arbitrary: s) (simp_all add: length_threads_step)

lemma length_results_fold: "length (results (fold (step rs) sched s)) = length (results s)"
  by (induction sched arbitrary: s) (simp_all add: length_results_step)

lemma all_set_step:
  assumes rs: "\<forall>i<length (threads s). rs ! i" and inv: "all_set s"
  shows "all_set (step rs i s)"
proof (cases "i < length (threads s)")
  case False
  then show ?thesis using inv by (simp add: step_def)
next
  case True
  show ?thesis
  proof (cases "threads s ! i")
    case Ready
    then show ?thesis using inv True
      by (auto simp: step_def all_set_def nth_list_update)
  next
    case (Loaded snap)
    then have snap: "length snap = length (results s)" "\<forall>j<length snap. snap ! j"
      using inv True by (auto simp: all_set_def)
    have res: "\<forall>j<length (results s). write_back i (rs ! i) snap (results s) ! j"
      using snap rs True inv by (auto simp: nth_write_back all_set_def)
    show ?thesis using Loaded True inv res
      by (auto simp: step_def all_set_def nth_list_update length_write_back)
  next
    case Done
    then show ?thesis using inv True by (simp add: step_def)
  qed
qed

lemma all_set_fold:
  "\<forall>i<length (threads s). rs ! i \<Longrightarrow> all_set s \<Longrightarrow> all_set (fold (step rs) sched s)"
proof (induction sched arbitrary: s)
  case Nil
  then show ?case by simp
next
  case (Cons i sched)
  have "all_set (step rs i s)" using Cons.prems by (intro all_set_step)
  moreover have "\<forall>j<length (threads (step rs i s)). rs ! j"
    using Cons.prems by (simp add: length_threads_step)
  ultimately show ?case using Cons.IH by simp
qed

lemma join_all_fold:
  "join_all rs s = fold (step rs) (concat (map (\<lambda>i. [i, i]) [0..<length (threads s)])) s"
proof -
  have "fold (\<lambda>i s. step rs i (step rs i s)) is s = fold (step rs) (concat (map (\<lambda>i. [i, i]) is)) s"
    for "is" s
    by (induction "is" arbitrary: s) simp_all
  then show ?thesis by (simp add: join_all_def)
qed

lemma all_set_join:
  "\<forall>i<length (threads s). rs ! i \<Longrightarrow> all_set s \<Longrightarrow> all_set (join_all rs s)"
  by (simp only: join_all_fold all_set_fold)

lemma all_set_initial:
  "all_set \<lparr>results = replicate k True, threads = replicate k Ready\<rparr>"
  by (simp add: all_set_def)

lemma all_set_results: "all_set s \<Longrightarrow> fst (all_of (\<lambda>x. x) (results s))"
  by (simp add: all_of_fst all_set_def list_all_length)

lemma step_pair_Ready:
  assumes "i < length (threads s)" "threads s ! i = Ready" "length (results s) = length (threads s)"
  shows "step rs i (step rs i s) =
           s\<lparr>results := (results s)[i := rs ! i], threads := (threads s)[i := Done]\<rparr>"
  using assms by (simp add: step_def write_back_same)

lemma step_Done:
  "i < length (threads s) \<Longrightarrow> threads s ! i = Done \<Longrightarrow> step rs i s = s"
  by (simp add: step_def)

lemma step_out: "\<not> i < length (threads s) \<Longrightarrow> step rs i s = s"
  by (simp add: step_def)

lemma settled_pair:
  assumes inv: "settled rs s"
  shows "settled rs (step rs i (step rs i s))"
proof (cases "i < length (threads s)")
  case False
  then show ?thesis using inv by (simp add: step_out)
next
  case True
  then consider "threads s ! i = Ready" | "threads s ! i = Done"
    using inv by (auto simp: settled_def)
  then show ?thesis
  proof cases
    case 1
    have len: "length (results s) = length (threads s)" using inv by (simp add: settled_def)
    show ?thesis
      using inv True by (auto simp: step_pair_Ready [OF True 1 len] settled_def nth_list_update)
  next
    case 2
    then show ?thesis using inv True by (simp add: step_Done)
  qed
qed

lemma pair_keeps_Done:
  assumes inv: "settled rs s" and j: "j < length (threads s)"
    and d: "j = i \<or> threads s ! j = Done"
  shows "threads (step rs i (step rs i s)) ! j = Done"
proof (cases "i < length (threads s)")
  case False
  then show ?thesis using d j by (auto simp: step_out)
next
  case True
  then consider "threads s ! i = Ready" | "threads s ! i = Done"
    using inv by (auto simp: settled_def)
  then show ?thesis
  proof cases
    case 1
    have len: "length (results s) = length (threads s)" using inv by (simp add: settled_def)
    show ?thesis using d j True by (auto simp: step_pair_Ready [OF True 1 len] nth_list_update)
  next
    case 2
    then show ?thesis using d j True by (auto simp: step_Done)
  qed
qed

lemma settled_serial:
  "settled rs s \<Longrightarrow> settled rs (fold (step rs) (concat (map (\<lambda>i. [i, i]) order)) s)"
  by (induction order arbitrary: s) (simp_all add: settled_pair)

lemma serial_finishes:
  assumes "settled rs s" "k \<le> length (threads s)"
  shows "settled rs (fold (\<lambda>i s. step rs i (step rs i s)) [0..<k] s) \<and>
         length (threads (fold (\<lambda>i s. step rs i (step rs i s)) [0..<k] s)) = length (threads s) \<and>
         (\<forall>j<k. threads (fold (\<lambda>i s. step rs i (step rs i s)) [0..<k] s) ! j = Done)"
  using assms(2)
proof (induction k)
  case 0
  then show ?case using assms(1) by simp
next
  case (Suc k)
  let ?s = "fold (\<lambda>i s. step rs i (step rs i s)) [0..<k] s"
  have ih: "settled rs ?s" "length (threads ?s) = length (threads s)"
    "\<forall>j<k. threads ?s ! j = Done"
    using Suc by simp_all
  have f: "fold (\<lambda>i s. step rs i (step rs i s)) [0..<Suc k] s = step rs k (step rs k ?s)"
    by simp
  have "threads (step rs k (step rs k ?s)) ! j = Done" if "j < Suc k" for j
  proof (rule pair_keeps_Done [OF ih(1)])
    show "j < length (threads ?s)" using that ih(2) Suc.prems by simp
    show "j = k \<or> threads ?s ! j = Done"
    proof (cases "j = k")
      case True
      then show ?thesis by simp
    next
      case False
      then have "j < k" using that by simp
      then show ?thesis using ih(3) by simp
    qed
  qed
  then show ?case
    using ih by (simp only: f settled_pair length_threads_step) simp
qed

lemma settled_join:
  assumes inv: "settled rs s" and len: "length rs = length (threads s)"
  shows "results (join_all rs s) = rs"
proof -
  let ?s = "join_all rs s"
  have fin: "settled rs ?s" "length (threads ?s) = length (threads s)"
    "\<forall>j<length (threads s). threads ?s ! j = Done"
    using serial_finishes [OF inv order_refl] by (simp_all add: join_all_def)
  show ?thesis
  proof (rule nth_equalityI)
    show "length (results ?s) = length rs" using fin len by (simp add: settled_def)
  next
    fix i assume "i < length (results ?s)"
    then have "i < length (threads ?s)" using fin by (simp add: settled_def)
    then show "results ?s ! i = rs ! i" using fin by (auto simp: settled_def)
  qed
qed

lemma settled_initial:
  "settled rs \<lparr>results = replicate k True, threads = replicate k Ready\<rparr>"
  by (simp add: settled_def)

lemma write_back_single: "length bits = 1 \<Longrightarrow> write_back 0 b snap bits = [b]"
  by (simp add: write_back_def)

lemma alone_step: "alone rs s \<Longrightarrow> alone rs (step rs i s)"
  by (cases "threads s ! 0")
     (auto simp: alone_def step_def write_back_single length_write_back split: worker.splits)

lemma alone_fold: "alone rs s \<Longrightarrow> alone rs (fold (step rs) sched s)"
  by (induction sched arbitrary: s) (simp_all add: alone_step)

lemma step_twice_Done:
  "i < length (threads s) \<Longrightarrow> threads (step rs i (step rs i s)) ! i = Done"
  by (cases "threads s ! i") (auto simp: step_def)

lemma alone_join:
  assumes "alone rs s"
  shows "results (join_all rs s) = [rs ! 0]"
proof -
  have one: "length (threads s) = 1" using assms by (simp add: alone_def)
  have j: "join_all rs s = step rs 0 (step rs 0 s)" by (simp add: join_all_def one)
  have a: "alone rs (join_all rs s)" using assms by (simp add: j alone_step)
  have d: "threads (join_all rs s) ! 0 = Done" using one by (simp add: j step_twice_Done)
  have "length (results (join_all rs s)) = 1" "results (join_all rs s) ! 0 = rs ! 0"
    using a d by (simp_all add: alone_def)
  then show ?thesis by (cases "results (join_all rs s)") auto
qed

section \<open>Facts about the predicate and the timing loop\<close>

lemma int32_wrap_id: "- 2147483648 \<le> v \<Longrightarrow> v < 2147483648 \<Longrightarrow> int32_wrap v = v"
  by (simp add: int32_wrap_def)

lemma sqrt_less_int:
  assumes "0 \<le> v"
  shows "sqrt (real_of_int v) < real_of_int t \<longleftrightarrow> 0 < t \<and> v < t * t"
proof (cases "0 < t")
  case False
  then have "real_of_int t \<le> 0" by simp
  also have "0 \<le> sqrt (real_of_int v)" using assms by simp
  finally show ?thesis using False by simp
next
  case True
  have "sqrt (real_of_int v) < real_of_int t \<longleftrightarrow> sqrt (real_of_int v) < sqrt (real_of_int (t * t))"
    using True by simp
  also have "\<dots> \<longleftrightarrow> real_of_int v < real_of_int (t * t)"
    by (rule real_sqrt_less_iff)
  also have "\<dots> \<longleftrightarrow> v < t * t" by (rule of_int_less_iff)
  finally show ?thesis using True by simp
qed

lemma predicate_int:
  "predicate threshold x =
     (let v = int32_wrap (int32_wrap (x * x) + 10)
      in 0 \<le> v \<and> 0 < threshold \<and> v < threshold * threshold)"
  using sqrt_less_int [of "int32_wrap (int32_wrap (x * x) + 10)" threshold]
  by (auto simp: predicate_def Let_def)

lemma predicate_bounds:
  assumes "0 \<le> x" "x \<le> 100"
  shows "predicate 101 x"
proof -
  have "x * x \<le> 100 * 100" using assms by (intro mult_mono) simp_all
  moreover have "0 \<le> x * x" using assms by simp
  ultimately have v: "0 \<le> x * x" "x * x \<le> 10000" by simp_all
  have w: "int32_wrap (x * x) = x * x" using v by (intro int32_wrap_id) linarith+
  have w2: "int32_wrap (x * x + 10) = x * x + 10" using v by (intro int32_wrap_id) linarith+
  show ?thesis using v by (simp add: predicate_int w w2)
qed

declare timeit_loop.simps [simp del]

lemma timeit_loop_int: "timeit_loop f (int n) w = Some ((f ^^ n) w)"
proof (induction n arbitrary: w)
  case 0
  show ?case by (simp add: timeit_loop.simps)
next
  case (Suc n)
  have "timeit_loop f (int (Suc n)) w = timeit_loop f (int n) (f w)"
    by (subst timeit_loop.simps) simp
  then show ?case using Suc by (simp add: funpow_swap1)
qed

lemma timeit_loop_nonneg: "0 \<le> repeat \<Longrightarrow> timeit_loop f repeat w = Some ((f ^^ nat repeat) w)"
  using timeit_loop_int [of f "nat repeat" w] by simp

lemma timeit_loop_negative: "repeat < 0 \<Longrightarrow> timeit_loop f repeat w = None"
proof (induction f repeat w rule: timeit_loop.induct)
  case (1 f repeat w)
  show ?case
  proof (cases "repeat \<le> - 2147483648")
    case True
    then show ?thesis by (subst timeit_loop.simps) simp
  next
    case False
    then have "timeit_loop f (repeat - 1) (f w) = None"
      using 1 by simp
    then show ?thesis using False 1(2) by (subst timeit_loop.simps) simp
  qed
qed

section \<open>Facts about \<open>parallel_all_of\<close>\<close>

text \<open>
  The integer form of the predicate computes; concrete runs below are evaluated with it.
\<close>

declare predicate_int [code]

lemma length_scans: "length (scans data t K) = nat K"
  by (simp add: scans_def Let_def)

lemma scans_fst_all:
  "1 \<le> K \<Longrightarrow> list_all (\<lambda>b. b) (map fst (scans data t K)) = list_all (predicate t) data"
  using scans_all [of K "predicate t" data] by (simp add: scans_def Let_def comp_def)

lemma parallel_all_of_spawn:
  assumes "1 \<le> K" "data \<noteq> []"
  shows "parallel_all_of sched data t K =
           \<lparr>returned = fst (all_of (\<lambda>x. x) (results (join_all (map fst (scans data t K))
               (fold (step (map fst (scans data t K))) sched
                  \<lparr>results = replicate (nat K) True, threads = replicate (nat K) Ready\<rparr>)))),
            spawned = nat K,
            evaluated = map snd (scans data t K)\<rparr>"
  using assms by (simp add: parallel_all_of_def Let_def)

text \<open>
  When every worker stores right after it loads (no two read-modify-writes overlap), and
  when there is one worker only, the call returns what the sequential check returns.
\<close>

lemma parallel_all_of_serial:
  assumes K: "1 \<le> K" and d: "data \<noteq> []"
  shows "returned (parallel_all_of (concat (map (\<lambda>i. [i, i]) order)) data t K)
           = sequential_all_of data t"
proof -
  let ?rs = "map fst (scans data t K)"
  let ?s0 = "\<lparr>results = replicate (nat K) True, threads = replicate (nat K) Ready\<rparr>"
  let ?s1 = "fold (step ?rs) (concat (map (\<lambda>i. [i, i]) order)) ?s0"
  have "settled ?rs ?s1" by (intro settled_serial settled_initial)
  moreover have "length ?rs = length (threads ?s1)"
    by (simp add: length_threads_fold length_scans)
  ultimately have "results (join_all ?rs ?s1) = ?rs" by (rule settled_join)
  then have "returned (parallel_all_of (concat (map (\<lambda>i. [i, i]) order)) data t K)
               = fst (all_of (\<lambda>x. x) ?rs)"
    by (simp add: parallel_all_of_spawn [OF K d])
  also have "\<dots> = list_all (predicate t) data"
    by (simp only: all_of_fst scans_fst_all [OF K])
  finally show ?thesis by (simp add: sequential_all_of_def all_of_fst)
qed

lemma parallel_all_of_single_worker:
  assumes d: "data \<noteq> []"
  shows "returned (parallel_all_of sched data t 1) = sequential_all_of data t"
proof -
  let ?rs = "map fst (scans data t 1)"
  let ?s0 = "\<lparr>results = replicate (nat 1) True, threads = replicate (nat 1) Ready\<rparr>"
  have "alone ?rs ?s0" by (simp add: alone_def)
  then have "alone ?rs (fold (step ?rs) sched ?s0)" by (rule alone_fold)
  then have r: "results (join_all ?rs (fold (step ?rs) sched ?s0)) = [?rs ! 0]"
    by (rule alone_join)
  have one: "?rs = [?rs ! 0]"
    using length_scans [of data t 1] by (cases "scans data t 1") auto
  have "returned (parallel_all_of sched data t 1) = fst (all_of (\<lambda>x. x) [?rs ! 0])"
    using r by (simp add: parallel_all_of_spawn [OF order_refl d])
  also have "\<dots> = fst (all_of (\<lambda>x. x) ?rs)" using one by simp
  also have "\<dots> = list_all (predicate t) data"
    by (simp only: all_of_fst scans_fst_all [OF order_refl])
  finally show ?thesis by (simp add: sequential_all_of_def all_of_fst)
qed

text \<open>
  When the predicate holds everywhere every worker stores a true bit over true bits, and
  no interleaving can change that.
\<close>

lemma parallel_all_of_all_true:
  assumes "list_all (predicate t) data"
  shows "returned (parallel_all_of sched data t K)"
proof (cases "K \<le> 0 \<or> data = []")
  case True
  then show ?thesis by (auto simp: parallel_all_of_def)
next
  case False
  then have K: "1 \<le> K" and d: "data \<noteq> []" by auto
  let ?rs = "map fst (scans data t K)"
  let ?s0 = "\<lparr>results = replicate (nat K) True, threads = replicate (nat K) Ready\<rparr>"
  have "list_all (\<lambda>b. b) ?rs" using assms by (simp only: scans_fst_all [OF K])
  then have rs: "\<forall>i<nat K. ?rs ! i" by (simp add: list_all_length length_scans)
  have a1: "all_set (fold (step ?rs) sched ?s0)"
    using rs by (intro all_set_fold all_set_initial) simp
  have "all_set (join_all ?rs (fold (step ?rs) sched ?s0))"
    using rs a1 by (intro all_set_join) (simp_all add: length_threads_fold)
  then show ?thesis
    by (simp add: parallel_all_of_spawn [OF K d] all_set_results)
qed

section \<open>Facts about the measured series and the speedup table\<close>

lemma timeit_once:
  "timeit f 1 w =
     Some (real_of_int (clock (f w) - clock w) / 1000000,
           (f w)\<lparr>printed := printed (f w) @ [real_of_int (clock (f w) - clock w) / 1000000]\<rparr>)"
  using timeit_loop_nonneg [of 1 f w] by (simp add: timeit_def Let_def)

lemma time_series_measured:
  assumes adv: "\<forall>K w. clock w < clock (call K w)"
  shows "\<exists>series w'. time_series call Ks w = Some (series, w') \<and> map fst series = Ks \<and>
           (\<forall>p\<in>set series. 0 < snd p)"
proof (induction Ks arbitrary: w)
  case Nil
  show ?case by simp
next
  case (Cons K Ks)
  let ?ms = "real_of_int (clock (call K w) - clock w) / 1000000"
  let ?w1 = "(call K w)\<lparr>printed := printed (call K w) @ [?ms]\<rparr>"
  obtain rest w2 where r: "time_series call Ks ?w1 = Some (rest, w2)" "map fst rest = Ks"
    "\<forall>p\<in>set rest. 0 < snd p"
    using Cons.IH [of ?w1] by blast
  have pos: "0 < ?ms" using adv by simp
  have "time_series call (K # Ks) w = Some ((K, ?ms) # rest, w2)"
    by (simp only: time_series.simps timeit_once option.case prod.case r(1))
  then show ?case using r(2,3) pos by simp
qed

lemma length_speedups: "length (speedups series) = length series"
  by (simp add: speedups_def)

lemma nth_speedups:
  "i < length series \<Longrightarrow> speedups series ! i = fdiv (snd (series ! 0)) (snd (series ! i))"
  by (simp add: speedups_def)

section \<open>The claims\<close>

text \<open>
  Claim C1: for every sequence, every threshold and every \<open>K \<ge> 1\<close> the call returns
  what the sequential check returns. That holds when the workers' stores do not overlap
  (\<open>parallel_all_of_serial\<close>) and when \<open>K = 1\<close> (\<open>parallel_all_of_single_worker\<close>). It
  does not hold for every run: on \<open>data = [200, 1]\<close>, \<open>threshold = 101\<close>, \<open>K = 2\<close> worker 0
  finds \<open>false\<close> and worker 1 \<open>true\<close>; when worker 1 loads the word of \<open>results\<close>, worker 0
  loads it, clears bit 0 and stores, and worker 1 then stores its copy with bit 1 set,
  the cleared bit 0 is overwritten with the \<open>true\<close> worker 1 had loaded. The call returns
  \<open>true\<close>; the sequential check returns \<open>false\<close>.
\<close>

theorem parallel_all_of_lost_update:
  "returned (parallel_all_of [1, 0, 0, 1] [200, 1] 101 2) \<and> \<not> sequential_all_of [200, 1] 101"
  by code_simp

text \<open>
  Claim C2, as the code has it. For every \<open>n\<close> and every \<open>K \<ge> 1\<close> the loop produces
  \<open>K\<close> ranges, range \<open>i\<close> being \<open>[part_start n K i, part_end n K i)\<close>; their union is
  exactly \<open>[0, n)\<close> and any two of them are disjoint, for \<open>K \<le> n\<close> and for \<open>K > n\<close>
  alike. When \<open>K > n\<close> the block size is 0, so the empty ranges are the leading ones:
  all but the last are \<open>[0, 0)\<close> and the last is the whole of \<open>[0, n)\<close>.
\<close>

theorem partitions_cover_disjoint:
  assumes K: "1 \<le> K"
  shows "length (partitions n K) = nat K \<and>
         (\<forall>i<nat K. partitions n K ! i = (part_start n K i, part_end n K i)) \<and>
         (\<Union>i<nat K. {part_start n K i ..< part_end n K i}) = {0..<n} \<and>
         (\<forall>i<nat K. \<forall>j<nat K. i \<noteq> j \<longrightarrow>
            {part_start n K i ..< part_end n K i} \<inter> {part_start n K j ..< part_end n K j} = {}) \<and>
         (int n < K \<longrightarrow>
            (\<forall>i<nat K - 1. part_start n K i = 0 \<and> part_end n K i = 0) \<and>
            part_start n K (nat K - 1) = 0 \<and> part_end n K (nat K - 1) = n)"
proof -
  have a: "length (partitions n K) = nat K" by (simp add: partitions_def)
  have b: "\<forall>i<nat K. partitions n K ! i = (part_start n K i, part_end n K i)"
    by (simp add: partitions_def)
  have c: "(\<Union>i<nat K. {part_start n K i ..< part_end n K i}) = {0..<n}"
    by (rule part_cover [OF K])
  have d: "\<forall>i<nat K. \<forall>j<nat K. i \<noteq> j \<longrightarrow>
            {part_start n K i ..< part_end n K i} \<inter> {part_start n K j ..< part_end n K j} = {}"
    using part_disjoint [OF K] by blast
  have e: "(\<forall>i<nat K - 1. part_start n K i = 0 \<and> part_end n K i = 0) \<and>
            part_start n K (nat K - 1) = 0 \<and> part_end n K (nat K - 1) = n" if "int n < K"
  proof -
    have "part_start n K i = 0 \<and> part_end n K i = 0" if "i < nat K - 1" for i
      using that \<open>int n < K\<close> by (intro part_empty_leading) linarith+
    moreover have "part_start n K (nat K - 1) = 0 \<and> part_end n K (nat K - 1) = n"
      using K \<open>int n < K\<close> by (intro part_last_whole) linarith+
    ultimately show ?thesis by simp
  qed
  then have e': "int n < K \<longrightarrow>
            (\<forall>i<nat K - 1. part_start n K i = 0 \<and> part_end n K i = 0) \<and>
            part_start n K (nat K - 1) = 0 \<and> part_end n K (nat K - 1) = n"
    by (rule impI)
  show ?thesis by (intro conjI a b c d e')
qed

text \<open>The theorem at \<open>n = 2\<close>, \<open>K = 3\<close>, a case with \<open>K > n\<close>.\<close>

theorem partitions_cover_disjoint_witness:
  "(1::int) \<le> 3 \<and> partitions 2 3 ! 2 = (0, 2) \<and>
   (\<Union>i<nat 3. {part_start 2 3 i ..< part_end 2 3 i}) = {0..<2} \<and>
   {part_start 2 3 0 ..< part_end 2 3 0} \<inter> {part_start 2 3 2 ..< part_end 2 3 2} = {} \<and>
   part_end 2 3 0 = 0 \<and> part_end 2 3 (nat 3 - 1) = 2"
proof -
  have h: "(1::int) \<le> 3" by simp
  have n: "int 2 < 3" "(0::nat) < nat 3 - 1" "(2::nat) < nat 3" "(0::nat) < nat 3" "(0::nat) \<noteq> 2"
    by simp_all
  note t = partitions_cover_disjoint [OF h, of 2]
  have p2: "\<forall>i<nat 3. partitions 2 3 ! i = (part_start 2 3 i, part_end 2 3 i)"
    using t by (rule conjunct2 [THEN conjunct1])
  have p3: "(\<Union>i<nat 3. {part_start 2 3 i ..< part_end 2 3 i}) = {0..<2}"
    using t by (rule conjunct2 [THEN conjunct2, THEN conjunct1])
  have p4: "\<forall>i<nat 3. \<forall>j<nat 3. i \<noteq> j \<longrightarrow>
      {part_start 2 3 i ..< part_end 2 3 i} \<inter> {part_start 2 3 j ..< part_end 2 3 j} = {}"
    using t by (rule conjunct2 [THEN conjunct2, THEN conjunct2, THEN conjunct1])
  have p5: "(\<forall>i<nat 3 - 1. part_start 2 3 i = 0 \<and> part_end 2 3 i = 0) \<and>
      part_start 2 3 (nat 3 - 1) = 0 \<and> part_end 2 3 (nat 3 - 1) = 2"
    using t n(1) by (rule conjunct2 [THEN conjunct2, THEN conjunct2, THEN conjunct2, THEN mp])
  have q1: "partitions 2 3 ! 2 = (0, 2)"
    using p2 [rule_format, OF n(3)] p5 by simp
  have q2: "part_end 2 3 0 = 0"
    using p5 [THEN conjunct1, rule_format, OF n(2)] by simp
  have q3: "part_end 2 3 (nat 3 - 1) = 2"
    using p5 by simp
  show ?thesis
    by (intro conjI h q1 p3 p4 [rule_format, OF n(4) n(3) n(5)] q2 q3)
qed

text \<open>
  Claim C2 as the specification words it has the empty ranges of the case \<open>K > n\<close>
  trailing. At \<open>n = 2\<close>, \<open>K = 3\<close> the ranges are \<open>[0,0), [0,0), [0,2)\<close>: the trailing one
  is not empty.
\<close>

theorem partitions_trailing_counterexample:
  "partitions 2 3 = [(0, 0), (0, 0), (0, 2)] \<and>
   fst (last (partitions 2 3)) \<noteq> snd (last (partitions 2 3))"
  by code_simp

text \<open>
  Claim C3. When \<open>K \<le> 0\<close> or the sequence is empty the call returns \<open>true\<close>, has
  created no thread and has called the predicate on nothing, whatever the schedule
  would have been; in particular on the empty sequence for every \<open>K\<close>.
\<close>

theorem fast_path_spawns_nothing:
  assumes "K \<le> 0 \<or> data = []"
  shows "parallel_all_of sched data threshold K = \<lparr>returned = True, spawned = 0, evaluated = []\<rparr>"
  using assms by (auto simp: parallel_all_of_def)

text \<open>The theorem at \<open>K = -2\<close> on a non-empty sequence, and at \<open>K = 4\<close> on the empty one.\<close>

theorem fast_path_spawns_nothing_witness:
  "((-2::int) \<le> 0 \<or> [5, 200] = ([]::int list)) \<and>
   parallel_all_of [0, 1, 0] [5, 200] 101 (-2) = \<lparr>returned = True, spawned = 0, evaluated = []\<rparr> \<and>
   ((4::int) \<le> 0 \<or> [] = ([]::int list)) \<and>
   parallel_all_of [1, 0] [] 101 4 = \<lparr>returned = True, spawned = 0, evaluated = []\<rparr>"
proof -
  have h1: "(-2::int) \<le> 0 \<or> [5, 200] = ([]::int list)" by simp
  have h2: "(4::int) \<le> 0 \<or> [] = ([]::int list)" by simp
  show ?thesis
    by (intro conjI h1 h2 fast_path_spawns_nothing [OF h1] fast_path_spawns_nothing [OF h2])
qed

text \<open>
  Claim C4. For \<open>n \<ge> 1\<close> and \<open>1 \<le> K \<le> n\<close> the last range ends at \<open>n\<close>; every other
  range holds \<open>block_size n K\<close> elements and the last holds \<open>n mod K\<close> more, which is at
  most \<open>K - 1\<close>. For \<open>n = 7\<close>, \<open>K = 3\<close> the ranges are \<open>[0,2), [2,4), [4,7)\<close>.
\<close>

theorem last_partition_absorbs_remainder:
  assumes K: "1 \<le> K" and n: "K \<le> int n"
  shows "part_end n K (nat K - 1) = n \<and>
         (\<forall>i<nat K - 1. part_end n K i - part_start n K i = block_size n K) \<and>
         part_end n K (nat K - 1) - part_start n K (nat K - 1) = block_size n K + n mod nat K \<and>
         n mod nat K \<le> nat K - 1 \<and>
         partitions 7 3 = [(0, 2), (2, 4), (4, 7)]"
proof -
  have a: "part_end n K (nat K - 1) = n" using K by (intro part_end_last) linarith
  have b: "\<forall>i<nat K - 1. part_end n K i - part_start n K i = block_size n K"
    by (auto simp: part_end_def part_start_def)
  have "nat K * (n div nat K) + n mod nat K = n" by simp
  then have "(nat K - 1) * (n div nat K) + (n div nat K + n mod nat K) = n"
    using K by (cases "nat K") auto
  then have c: "part_end n K (nat K - 1) - part_start n K (nat K - 1) = block_size n K + n mod nat K"
    unfolding a part_start_def block_size_def by linarith
  have "n mod nat K < nat K" using K by simp
  then have d: "n mod nat K \<le> nat K - 1" by simp
  have e: "partitions 7 3 = [(0, 2), (2, 4), (4, 7)]" by code_simp
  show ?thesis by (intro conjI a b c d e)
qed

text \<open>The theorem at \<open>n = 7\<close>, \<open>K = 3\<close>.\<close>

theorem last_partition_absorbs_remainder_witness:
  "(1::int) \<le> 3 \<and> 3 \<le> int 7 \<and> part_end 7 3 (nat 3 - 1) = 7 \<and>
   part_end 7 3 0 - part_start 7 3 0 = block_size 7 3 \<and>
   part_end 7 3 (nat 3 - 1) - part_start 7 3 (nat 3 - 1) = block_size 7 3 + 7 mod nat 3 \<and>
   (7::nat) mod nat 3 \<le> nat 3 - 1"
proof -
  have h: "(1::int) \<le> 3" "3 \<le> int 7" by simp_all
  have i: "(0::nat) < nat 3 - 1" by simp
  note t = last_partition_absorbs_remainder [OF h]
  have p1: "part_end 7 3 (nat 3 - 1) = 7"
    using t by (rule conjunct1)
  have p2: "\<forall>i<nat 3 - 1. part_end 7 3 i - part_start 7 3 i = block_size 7 3"
    using t by (rule conjunct2 [THEN conjunct1])
  have p3: "part_end 7 3 (nat 3 - 1) - part_start 7 3 (nat 3 - 1) = block_size 7 3 + 7 mod nat 3"
    using t by (rule conjunct2 [THEN conjunct2, THEN conjunct1])
  have p4: "(7::nat) mod nat 3 \<le> nat 3 - 1"
    using t by (rule conjunct2 [THEN conjunct2, THEN conjunct2, THEN conjunct1])
  show ?thesis by (intro conjI h p1 p2 [rule_format, OF i] p3 p4)
qed

text \<open>
  Claim C5: for a sequence of length \<open>n\<close> the call with \<open>K = 1\<close> and the call with \<open>K = n\<close>
  return the same. With \<open>K = 1\<close> the result is always that of the sequential check; with
  \<open>K = n \<ge> 2\<close> it is the run of claim C1 again: on \<open>[200, 1]\<close> (\<open>n = 2\<close>) the schedule in
  which worker 1's store overwrites worker 0's makes the call with \<open>K = 2\<close> return \<open>true\<close>,
  while the call with \<open>K = 1\<close> returns \<open>false\<close>.
\<close>

theorem granularity_changes_result:
  "length [200, 1::int] = 2 \<and>
   returned (parallel_all_of [1, 0, 0, 1] [200, 1] 101 2) \<and>
   \<not> returned (parallel_all_of [] [200, 1] 101 1)"
  by code_simp

text \<open>
  Claim C6, as the code has it. For \<open>K \<ge> 1\<close> on a non-empty sequence the call creates
  \<open>K\<close> workers, whatever any of them finds. Worker \<open>i\<close> calls the predicate on the
  elements of its range \<open>[start, end)\<close> in sequence order, up to and including the first
  one the predicate rejects, where \<open>std::all_of\<close> stops: the elements it has seen are a
  prefix of its range, at most \<open>end - start\<close> of them, and all \<open>end - start\<close> of them when
  the predicate holds on the whole range. What a worker sees depends on its own range
  only, not on the schedule or on another worker's result.
\<close>

theorem worker_scan_stops_at_first_failure:
  assumes K: "1 \<le> K" and d: "data \<noteq> []"
  shows "spawned (parallel_all_of sched data threshold K) = nat K \<and>
         length (evaluated (parallel_all_of sched data threshold K)) = nat K \<and>
         (\<forall>i<nat K.
            let n = length data;
                seg = range_of data (part_start n K i) (part_end n K i);
                seen = evaluated (parallel_all_of sched data threshold K) ! i
            in length seg = part_end n K i - part_start n K i \<and>
               seen = takeWhile (predicate threshold) seg
                        @ take 1 (dropWhile (predicate threshold) seg) \<and>
               seen = take (length seen) seg \<and>
               length seen \<le> part_end n K i - part_start n K i \<and>
               (list_all (predicate threshold) seg \<longrightarrow> seen = seg))"
proof -
  let ?run = "parallel_all_of sched data threshold K"
  let ?n = "length data"
  have a: "spawned ?run = nat K" by (simp add: parallel_all_of_spawn [OF K d])
  have ev: "evaluated ?run = map snd (scans data threshold K)"
    by (simp add: parallel_all_of_spawn [OF K d])
  have b: "length (evaluated ?run) = nat K" by (simp add: ev length_scans)
  have c: "let n = length data;
               seg = range_of data (part_start n K i) (part_end n K i);
               seen = evaluated ?run ! i
           in length seg = part_end n K i - part_start n K i \<and>
              seen = takeWhile (predicate threshold) seg
                       @ take 1 (dropWhile (predicate threshold) seg) \<and>
              seen = take (length seen) seg \<and>
              length seen \<le> part_end n K i - part_start n K i \<and>
              (list_all (predicate threshold) seg \<longrightarrow> seen = seg)" if i: "i < nat K" for i
  proof -
    let ?seg = "range_of data (part_start ?n K i) (part_end ?n K i)"
    have seen: "evaluated ?run ! i = snd (all_of (predicate threshold) ?seg)"
      using i by (simp add: ev scans_def Let_def)
    have len: "length ?seg = part_end ?n K i - part_start ?n K i"
      using part_end_le [OF K i] by (rule length_range_of)
    have c2: "snd (all_of (predicate threshold) ?seg) =
                takeWhile (predicate threshold) ?seg @ take 1 (dropWhile (predicate threshold) ?seg)"
      by (rule all_of_snd)
    have c3: "snd (all_of (predicate threshold) ?seg) =
                take (length (snd (all_of (predicate threshold) ?seg))) ?seg"
      by (rule all_of_snd_prefix)
    have c4: "length (snd (all_of (predicate threshold) ?seg)) \<le> part_end ?n K i - part_start ?n K i"
      using all_of_snd_length [of "predicate threshold" ?seg] len by simp
    have c5: "list_all (predicate threshold) ?seg \<longrightarrow> snd (all_of (predicate threshold) ?seg) = ?seg"
      by (simp add: all_of_snd_all)
    show ?thesis
      unfolding Let_def seen by (intro conjI len c2 c3 c4 c5)
  qed
  show ?thesis using a b c by simp
qed

text \<open>
  The theorem at \<open>[200, 1, 3, 4, 5]\<close>, \<open>K = 2\<close>: worker 0 stops at 200, the first element
  of its range \<open>[0, 2)\<close>; worker 1 scans all of \<open>[2, 5)\<close> although worker 0 found a
  violation.
\<close>

theorem worker_scan_stops_at_first_failure_witness:
  "(1::int) \<le> 2 \<and> [200, 1, 3, 4, 5::int] \<noteq> [] \<and>
   spawned (parallel_all_of [] [200, 1, 3, 4, 5] 101 2) = 2 \<and>
   evaluated (parallel_all_of [] [200, 1, 3, 4, 5] 101 2) ! 0 = [200] \<and>
   evaluated (parallel_all_of [] [200, 1, 3, 4, 5] 101 2) ! 1 = [3, 4, 5]"
proof -
  have h: "(1::int) \<le> 2" "[200, 1, 3, 4, 5::int] \<noteq> []" by simp_all
  have i: "(0::nat) < nat 2" "(1::nat) < nat 2" by simp_all
  note t = worker_scan_stops_at_first_failure [OF h, of "[]" 101]
  note per = t [THEN conjunct2, THEN conjunct2, rule_format, unfolded Let_def]
  have "spawned (parallel_all_of [] [200, 1, 3, 4, 5] 101 2) = nat 2"
    using t by (rule conjunct1)
  then have s: "spawned (parallel_all_of [] [200, 1, 3, 4, 5] 101 2) = 2" by simp
  have seg0: "takeWhile (predicate 101)
                (range_of [200, 1, 3, 4, 5] (part_start (length [200, 1, 3, 4, 5::int]) 2 0)
                   (part_end (length [200, 1, 3, 4, 5::int]) 2 0))
              @ take 1 (dropWhile (predicate 101)
                (range_of [200, 1, 3, 4, 5] (part_start (length [200, 1, 3, 4, 5::int]) 2 0)
                   (part_end (length [200, 1, 3, 4, 5::int]) 2 0))) = [200]"
    by code_simp
  have seg1: "range_of [200, 1, 3, 4, 5::int] (part_start (length [200, 1, 3, 4, 5::int]) 2 1)
                (part_end (length [200, 1, 3, 4, 5::int]) 2 1) = [3, 4, 5]"
    by code_simp
  have all1: "list_all (predicate 101) [3, 4, 5]" by code_simp
  have e0: "evaluated (parallel_all_of [] [200, 1, 3, 4, 5] 101 2) ! 0 = [200]"
    using per [OF i(1), THEN conjunct2, THEN conjunct1] by (simp only: seg0)
  have e1: "evaluated (parallel_all_of [] [200, 1, 3, 4, 5] 101 2) ! 1 = [3, 4, 5]"
    using per [OF i(2), THEN conjunct2, THEN conjunct2, THEN conjunct2, THEN conjunct2] all1
    by (simp only: seg1)
  show ?thesis by (intro conjI h s e0 e1)
qed

text \<open>
  Claim C6 as the specification words it has every worker call the predicate on all
  \<open>end - start\<close> elements of its range. On \<open>[200, 1]\<close> with \<open>K = 1\<close> the range is \<open>[0, 2)\<close>
  and the worker calls the predicate once, on 200.
\<close>

theorem full_scan_counterexample:
  "evaluated (parallel_all_of [] [200, 1] 101 1) = [[200]] \<and>
   length (evaluated (parallel_all_of [] [200, 1] 101 1) ! 0) \<noteq> part_end 2 1 0 - part_start 2 1 0"
  by code_simp

text \<open>
  Claim C7. For a positive \<open>repeat\<close>, \<open>timeit f repeat\<close> returns; the world it leaves is
  that of \<open>repeat\<close> calls of \<open>f\<close> one after the other (and the printed line), and the value
  it returns and prints is the difference of the clock after the last call and before
  the first, in milliseconds: the total, not divided by \<open>repeat\<close>.
\<close>

theorem timeit_runs_repeat_times_total:
  assumes "0 < repeat"
  shows "let w1 = (f ^^ nat repeat) w;
             ms = real_of_int (clock w1 - clock w) / 1000000
         in timeit f repeat w = Some (ms, w1\<lparr>printed := printed w1 @ [ms]\<rparr>)"
  using assms by (simp add: timeit_def timeit_loop_nonneg Let_def)

text \<open>
  The theorem for an operation that takes 5 ticks and counts its calls, with
  \<open>repeat = 3\<close>: three calls, 15 ticks in total.
\<close>

theorem timeit_runs_repeat_times_total_witness:
  "(0::int) < 3 \<and>
   timeit (\<lambda>w. w\<lparr>clock := clock w + 5, user := Suc (user w)\<rparr>) 3
          \<lparr>clock = 100, printed = [], user = 0::nat\<rparr>
     = Some (15 / 1000000, \<lparr>clock = 115, printed = [15 / 1000000], user = 3\<rparr>)"
proof -
  have h: "(0::int) < 3" by simp
  show ?thesis
    using timeit_runs_repeat_times_total [OF h,
        of "\<lambda>w. w\<lparr>clock := clock w + 5, user := Suc (user w)\<rparr>"
           "\<lparr>clock = 100, printed = [], user = 0::nat\<rparr>"]
    by (simp add: Let_def eval_nat_numeral)
qed

text \<open>
  Claim C8. For every series \<open>[(K\<^sub>0, t\<^sub>0), (K\<^sub>1, t\<^sub>1), ...]\<close> the table has one speedup
  per entry and the speedup of entry \<open>i\<close> is the quotient \<open>t\<^sub>0 / t\<^sub>i\<close> as the division of
  \<open>double\<close>s gives it; the speedup of the baseline entry is exactly 1 whenever \<open>t\<^sub>0\<close> is
  not zero. The series of the benchmark is measured by \<open>timeit\<close> around calls that take
  time, so all its times are positive: for it the baseline speedup is exactly 1 and
  every speedup is the finite quotient \<open>t\<^sub>0 / t\<^sub>i\<close>.
\<close>

theorem speedup_is_quotient:
  "length (speedups series) = length series \<and>
   (\<forall>i<length series. speedups series ! i = fdiv (snd (series ! 0)) (snd (series ! i))) \<and>
   (series \<noteq> [] \<and> snd (series ! 0) \<noteq> 0 \<longrightarrow> speedups series ! 0 = Finite 1) \<and>
   ((\<forall>K w. clock w < clock (call K w)) \<and> Ks \<noteq> [] \<longrightarrow>
      (\<exists>measured w'.
         time_series call Ks w = Some (measured, w') \<and> map fst measured = Ks \<and>
         speedups measured ! 0 = Finite 1 \<and>
         (\<forall>i<length measured.
            speedups measured ! i = Finite (snd (measured ! 0) / snd (measured ! i)))))"
proof -
  have a: "length (speedups series) = length series" by (rule length_speedups)
  have b: "\<forall>i<length series. speedups series ! i = fdiv (snd (series ! 0)) (snd (series ! i))"
    by (simp add: nth_speedups)
  have c: "series \<noteq> [] \<and> snd (series ! 0) \<noteq> 0 \<longrightarrow> speedups series ! 0 = Finite 1"
    by (simp add: nth_speedups fdiv_def)
  have d: "\<exists>measured w'.
         time_series call Ks w = Some (measured, w') \<and> map fst measured = Ks \<and>
         speedups measured ! 0 = Finite 1 \<and>
         (\<forall>i<length measured.
            speedups measured ! i = Finite (snd (measured ! 0) / snd (measured ! i)))"
    if adv: "\<forall>K w. clock w < clock (call K w)" and ne: "Ks \<noteq> []"
  proof -
    obtain measured w' where m: "time_series call Ks w = Some (measured, w')"
      "map fst measured = Ks" "\<forall>p\<in>set measured. 0 < snd p"
      using time_series_measured [OF adv, of Ks w] by blast
    have mne: "measured \<noteq> []" using m(2) ne by auto
    have pos: "0 < snd (measured ! i)" if "i < length measured" for i
      using m(3) that by simp
    have q: "speedups measured ! i = Finite (snd (measured ! 0) / snd (measured ! i))"
      if "i < length measured" for i
      using pos [OF that] that by (simp add: nth_speedups fdiv_def)
    have z: "0 < length measured" using mne by simp
    have "speedups measured ! 0 = Finite 1"
      using q [OF z] pos [OF z] by simp
    then show ?thesis using m(1,2) q by blast
  qed
  then have d': "(\<forall>K w. clock w < clock (call K w)) \<and> Ks \<noteq> [] \<longrightarrow>
      (\<exists>measured w'.
         time_series call Ks w = Some (measured, w') \<and> map fst measured = Ks \<and>
         speedups measured ! 0 = Finite 1 \<and>
         (\<forall>i<length measured.
            speedups measured ! i = Finite (snd (measured ! 0) / snd (measured ! i))))"
    by blast
  show ?thesis by (intro conjI a b c d')
qed

text \<open>
  The theorem for two calls that take 8 ms and 4 ms, measured with \<open>K = 1\<close> and \<open>K = 2\<close>:
  the speedups are 1 and 2. The quotient of a series with \<open>t\<^sub>0 = 0\<close> is that of the
  division too.
\<close>

theorem speedup_is_quotient_witness:
  "time_series (\<lambda>K w. w\<lparr>clock := clock w + (if K = 1 then 8000000 else 4000000)\<rparr>) [1, 2]
      \<lparr>clock = 0, printed = [], user = ()\<rparr>
     = Some ([(1, 8), (2, 4)], \<lparr>clock = 12000000, printed = [8, 4], user = ()\<rparr>) \<and>
   speedups [(1, 8), (2, 4)] ! 0 = Finite 1 \<and>
   speedups [(1, 8), (2, 4)] ! 1 = Finite 2 \<and>
   speedups [(1, 0), (2, 5)] ! 1 = fdiv 0 5"
proof -
  let ?call = "\<lambda>K (w::unit world). w\<lparr>clock := clock w + (if K = 1 then 8000000 else 4000000)\<rparr>"
  let ?w = "\<lparr>clock = 0, printed = [], user = ()\<rparr>"
  have h: "(\<forall>K w. clock w < clock (?call K w)) \<and> [1, 2::int] \<noteq> []" by simp
  have run: "time_series ?call [1, 2] ?w
     = Some ([(1, 8), (2, 4)], \<lparr>clock = 12000000, printed = [8, 4], user = ()\<rparr>)"
    by (simp add: timeit_once)
  note t = speedup_is_quotient [of "[(1, 0), (2, 5)]" ?call "[1, 2]" ?w]
  note g = t [THEN conjunct2, THEN conjunct2, THEN conjunct2, THEN mp, OF h]
  have m: "speedups [(1, 8), (2, 4)] ! 0 = Finite 1 \<and>
           (\<forall>i<length [(1::int, 8::real), (2, 4)].
              speedups [(1, 8), (2, 4)] ! i
                = Finite (snd ([(1::int, 8::real), (2, 4)] ! 0) / snd ([(1::int, 8::real), (2, 4)] ! i)))"
    using g by (simp only: run) simp
  have i: "(1::nat) < length [(1::int, 8::real), (2, 4)]" by simp
  have s0: "speedups [(1, 8), (2, 4)] ! 0 = Finite 1" using m by (rule conjunct1)
  have s1: "speedups [(1, 8), (2, 4)] ! 1 = Finite 2"
    using m [THEN conjunct2, rule_format, OF i] by simp
  have j: "(1::nat) < length [(1::int, 0::real), (2, 5)]" by simp
  have s2: "speedups [(1, 0), (2, 5)] ! 1 = fdiv 0 5"
    using t [THEN conjunct2, THEN conjunct1, rule_format, OF j] by simp
  show ?thesis by (intro conjI run s0 s1 s2)
qed

text \<open>
  Claim C9. For every \<open>K \<le> 0\<close> and every sequence with an element on which the
  predicate is false, the call returns \<open>true\<close> and the sequential check returns \<open>false\<close>:
  below \<open>K = 1\<close> the two do not agree.
\<close>

theorem nonpositive_K_ignores_data:
  assumes "K \<le> 0" "x \<in> set data" "\<not> predicate threshold x"
  shows "returned (parallel_all_of sched data threshold K) \<and> \<not> sequential_all_of data threshold"
proof -
  have "returned (parallel_all_of sched data threshold K)"
    using assms(1) by (simp add: parallel_all_of_def)
  moreover have "\<not> list_all (predicate threshold) data"
    using assms(2,3) by (auto simp: list_all_iff)
  ultimately show ?thesis by (simp add: sequential_all_of_def all_of_fst)
qed

text \<open>The theorem at \<open>K = 0\<close>, \<open>data = [1, 200]\<close>, \<open>threshold = 101\<close>.\<close>

theorem nonpositive_K_ignores_data_witness:
  "(0::int) \<le> 0 \<and> (200::int) \<in> set [1, 200] \<and> \<not> predicate 101 200 \<and>
   returned (parallel_all_of [] [1, 200] 101 0) \<and> \<not> sequential_all_of [1, 200] 101"
proof -
  have h: "(0::int) \<le> 0" "(200::int) \<in> set [1, 200]" "\<not> predicate 101 200"
    by (simp_all add: predicate_int int32_wrap_def)
  note t = nonpositive_K_ignores_data [OF h, of "[]"]
  show ?thesis by (intro conjI h t [THEN conjunct1] t [THEN conjunct2])
qed

text \<open>
  Claim C10. For every \<open>x\<close> with \<open>0 \<le> x \<le> 100\<close> the predicate with threshold 101 holds
  (\<open>x * x + 10 \<le> 10010 < 101\<^sup>2\<close>). Hence on every sequence with elements within these
  bounds the sequential check returns \<open>true\<close>, and so does \<open>parallel_all_of\<close> for every
  \<open>K\<close> and every schedule.
\<close>

theorem benchmark_predicate_always_true:
  "(\<forall>x. 0 \<le> x \<and> x \<le> 100 \<longrightarrow> predicate 101 x) \<and>
   ((\<forall>x\<in>set data. 0 \<le> x \<and> x \<le> 100) \<longrightarrow>
      sequential_all_of data 101 \<and> returned (parallel_all_of sched data 101 K))"
proof -
  have a: "\<forall>x. 0 \<le> x \<and> x \<le> 100 \<longrightarrow> predicate 101 x"
    by (simp add: predicate_bounds)
  have b: "sequential_all_of data 101 \<and> returned (parallel_all_of sched data 101 K)"
    if "\<forall>x\<in>set data. 0 \<le> x \<and> x \<le> 100"
  proof -
    have all: "list_all (predicate 101) data"
      using that by (simp add: list_all_iff predicate_bounds)
    then have "sequential_all_of data 101" by (simp add: sequential_all_of_def all_of_fst)
    moreover have "returned (parallel_all_of sched data 101 K)"
      using all by (rule parallel_all_of_all_true)
    ultimately show ?thesis by simp
  qed
  then have b': "(\<forall>x\<in>set data. 0 \<le> x \<and> x \<le> 100) \<longrightarrow>
      sequential_all_of data 101 \<and> returned (parallel_all_of sched data 101 K)"
    by (rule impI)
  show ?thesis by (intro conjI a b')
qed

text \<open>The theorem at \<open>x = 100\<close>, \<open>x = 0\<close> and the sequence \<open>[0, 100, 37]\<close> with \<open>K = 2\<close>.\<close>

theorem benchmark_predicate_always_true_witness:
  "predicate 101 100 \<and> predicate 101 0 \<and>
   sequential_all_of [0, 100, 37] 101 \<and> returned (parallel_all_of [1, 0, 0, 1] [0, 100, 37] 101 2)"
proof -
  note t = benchmark_predicate_always_true [of "[0, 100, 37]" "[1, 0, 0, 1]" 2]
  have h: "\<forall>x\<in>set [0, 100, 37::int]. 0 \<le> x \<and> x \<le> 100" by simp
  have p: "predicate 101 100" "predicate 101 0"
    using t [THEN conjunct1] by simp_all
  note q = t [THEN conjunct2, THEN mp, OF h]
  show ?thesis by (intro conjI p q [THEN conjunct1] q [THEN conjunct2])
qed

end
